theory Spec2Isabelle
  imports Main "HOL-Library.Word" "HOL-Library.Sublist"
begin

section \<open>JavaScript strings\<close>

text \<open>
  A JavaScript string is a sequence of UTF-16 code units; \<open>length\<close>, \<open>split('')\<close>,
  \<open>includes\<close> and \<open>replace\<close> all work on code units. The Hangul syllables of the
  source's literals lie in the Basic Multilingual Plane, one code unit each.
\<close>

type_synonym code_unit = "16 word"
type_synonym jsstring = "code_unit list"

definition HYPHEN :: code_unit where
  "HYPHEN = 0x2D"

definition NEWLINE :: code_unit where
  "NEWLINE = 0x0A"

text \<open>
  The code units that \<open>String.prototype.trim\<close> removes: ECMAScript's WhiteSpace
  (TAB, VT, FF, SP, NBSP, ZWNBSP and the category Zs) and LineTerminator (LF, CR, LS, PS).
\<close>

definition is_ws :: "code_unit \<Rightarrow> bool" where
  "is_ws c = (c \<in> set [0x09, 0x0A, 0x0B, 0x0C, 0x0D, 0x20, 0xA0, 0x1680,
                        0x2028, 0x2029, 0x202F, 0x205F, 0x3000, 0xFEFF]
              \<or> (0x2000 \<le> c \<and> c \<le> 0x200A))"

definition js_trimStart :: "jsstring \<Rightarrow> jsstring" where
  "js_trimStart s = dropWhile is_ws s"

definition js_trim :: "jsstring \<Rightarrow> jsstring" where
  "js_trim s = rev (dropWhile is_ws (rev (dropWhile is_ws s)))"

text \<open>A string used as a condition is truthy exactly when it is not empty.\<close>

definition truthy :: "jsstring \<Rightarrow> bool" where
  "truthy s = (s \<noteq> [])"

text \<open>
  \<open>s.split(sep)\<close> for a one-code-unit separator: \<open>cur\<close> is the piece being read.
  The empty string splits into one empty piece.
\<close>

fun split_on :: "code_unit \<Rightarrow> jsstring \<Rightarrow> jsstring \<Rightarrow> jsstring list" where
  "split_on sep cur [] = [cur]"
| "split_on sep cur (c # cs) =
     (if c = sep then cur # split_on sep [] cs else split_on sep (cur @ [c]) cs)"

text \<open>\<open>s.split('')\<close>: one string of length 1 for each code unit.\<close>

definition split_chars :: "jsstring \<Rightarrow> jsstring list" where
  "split_chars s = map (\<lambda>c. [c]) s"

text \<open>\<open>s.includes(sub)\<close>.\<close>

fun js_includes :: "jsstring \<Rightarrow> jsstring \<Rightarrow> bool" where
  "js_includes [] sub = (sub = [])"
| "js_includes (c # cs) sub = (prefix sub (c # cs) \<or> js_includes cs sub)"

text \<open>
  \<open>s.replace(pat, rep)\<close> with a string pattern: only the first occurrence is replaced
  (the replacements of the source hold no \<open>$\<close> pattern).
\<close>

fun replace_first :: "jsstring \<Rightarrow> jsstring \<Rightarrow> jsstring \<Rightarrow> jsstring" where
  "replace_first [] pat rep = (if pat = [] then rep else [])"
| "replace_first (c # cs) pat rep =
     (if prefix pat (c # cs) then rep @ drop (length pat) (c # cs)
      else c # replace_first cs pat rep)"

section \<open>The line wrapper of \<open>generateImage\<close>\<close>

text \<open>
  The body of \<open>words.forEach(char => ...)\<close>: the state is the array \<open>wrappedLines\<close>
  and the variable \<open>currentLine\<close>.
\<close>

definition wrap_step :: "jsstring list \<times> jsstring \<Rightarrow> jsstring \<Rightarrow> jsstring list \<times> jsstring" where
  "wrap_step st char =
     (let (wrappedLines, currentLine) = st;
          testLine = currentLine @ char
      in if length testLine > 25 then (wrappedLines @ [currentLine], char)
         else (wrappedLines, testLine))"

text \<open>The body of \<open>lines.forEach(line => ...)\<close>, returning the array \<open>wrappedLines\<close>.\<close>

definition wrap_line :: "jsstring list \<Rightarrow> jsstring \<Rightarrow> jsstring list" where
  "wrap_line wrappedLines line =
     (if truthy (js_trim line) then
        (let words = split_chars line;
             (wrappedLines', currentLine) = foldl wrap_step (wrappedLines, []) words
         in if truthy currentLine then wrappedLines' @ [currentLine] else wrappedLines')
      else wrappedLines)"

definition wrap_section :: "jsstring \<Rightarrow> jsstring list" where
  "wrap_section section =
     (let lines = filter (\<lambda>l. truthy (js_trim l)) (split_on NEWLINE [] section)
      in foldl wrap_line [] lines)"

text \<open>
  The wrapper as the specification words it: characters are appended one at a time to an
  accumulator; when appending the next one would make it longer than 25, the accumulator is
  emitted and restarts from that character; a non-empty remainder is emitted at the end.
\<close>

fun greedy_wrap :: "jsstring \<Rightarrow> jsstring \<Rightarrow> jsstring list" where
  "greedy_wrap acc [] = (if acc \<noteq> [] then [acc] else [])"
| "greedy_wrap acc (c # cs) =
     (if length acc + 1 > 25 then acc # greedy_wrap [c] cs
      else greedy_wrap (acc @ [c]) cs)"

definition logical_lines :: "jsstring \<Rightarrow> jsstring list" where
  "logical_lines section = filter (\<lambda>l. js_trim l \<noteq> []) (split_on NEWLINE [] section)"

section \<open>The section splitter of \<open>processFile\<close>\<close>

text \<open>
  \<open>text.split(/[-]{20,}/)\<close>, following \<open>RegExp.prototype[Symbol.split]\<close>: the text
  is read from left to right; at each position \<open>q\<close> the pattern is tried there, and the
  greedy quantifier takes the whole run of hyphens that starts at \<open>q\<close>. When the run has
  at least 20 hyphens, the piece read since the last match is emitted and reading resumes
  after the run; otherwise \<open>q\<close> moves one code unit on. \<open>cur\<close> is the piece between the
  end \<open>p\<close> of the last match and \<open>q\<close>. The pattern never matches the empty string, so
  the empty text splits into one empty piece. (The limit of the built-in, \<open>2^32 - 1\<close>
  pieces, is out of the reach of any string.)
\<close>

definition hyphen_run :: "jsstring \<Rightarrow> nat" where
  "hyphen_run s = length (takeWhile (\<lambda>c. c = HYPHEN) s)"

function split_delim :: "jsstring \<Rightarrow> jsstring \<Rightarrow> jsstring list" where
  "split_delim cur [] = [cur]"
| "split_delim cur (c # cs) =
     (if 20 \<le> hyphen_run (c # cs)
      then cur # split_delim [] (drop (hyphen_run (c # cs)) (c # cs))
      else split_delim (cur @ [c]) cs)"
  by pat_completeness auto
termination
  by (relation "measure (\<lambda>(cur, s). length s)") auto

text \<open>\<open>text.split(/[-]{20,}/).filter(s => s.trim())\<close>.\<close>

definition sections :: "jsstring \<Rightarrow> jsstring list" where
  "sections text = filter (\<lambda>s. truthy (js_trim s)) (split_delim [] text)"

section \<open>The title and content classifier of \<open>generateImage\<close>\<close>

text \<open>
  The three string literals of the source, as code units:
  \<open>HEADER\<close> is the argument of \<open>includes\<close> (U+CC3D U+C138 U+AE30, a space, the digit 1,
  U+C7A5: "Genesis chapter 1"), \<open>HEADER_SP\<close> is the argument of \<open>replace\<close> (the same
  followed by one space), and \<open>SUFFIX\<close> is the one syllable U+C808 ("verse").
\<close>

definition HEADER :: jsstring where
  "HEADER = [0xCC3D, 0xC138, 0xAE30, 0x20, 0x31, 0xC7A5]"

definition HEADER_SP :: jsstring where
  "HEADER_SP = [0xCC3D, 0xC138, 0xAE30, 0x20, 0x31, 0xC7A5, 0x20]"

definition SUFFIX :: jsstring where
  "SUFFIX = [0xC808]"

text \<open>The body of \<open>wrappedLines.forEach(line => ...)\<close> on \<open>title\<close> and \<open>contentLines\<close>.\<close>

definition classify_step :: "jsstring \<times> jsstring list \<Rightarrow> jsstring \<Rightarrow> jsstring \<times> jsstring list" where
  "classify_step st line =
     (let (title, contentLines) = st
      in if js_includes line HEADER \<and> js_includes line SUFFIX
         then (js_trim (replace_first (replace_first line HEADER_SP []) SUFFIX []), contentLines)
         else if truthy (js_trim line) then (title, contentLines @ [js_trim line])
         else (title, contentLines))"

definition classify :: "jsstring list \<Rightarrow> jsstring \<times> jsstring list" where
  "classify wrappedLines = foldl classify_step ([], []) wrappedLines"

section \<open>The painter of \<open>generateImage\<close>\<close>

text \<open>
  The four settings are JavaScript numbers that hold integers. They are modelled as
  \<open>int\<close>: the additions of the painter are exact as long as the values stay below
  \<open>2^53\<close> in magnitude.
\<close>

record settings =
  contentFontSize :: int
  numberFontSize :: int
  numberContentSpacing :: int
  lineSpacing :: int

text \<open>
  The canvas is modelled by its size and by the sequence of the calls and assignments made
  on its 2D context, in the order the source makes them. \<open>Font n\<close> is the assignment of
  the string "\<open>n\<close>px Arial" to \<open>ctx.font\<close>; \<open>StrokeStyle\<close>, \<open>LineWidth\<close>, \<open>FillStyle\<close>
  and \<open>TextBaseline\<close> are the assignments to the properties of these names.
\<close>

datatype colour = White | Black

datatype baseline = Top

datatype draw_cmd =
    ClearRect int int int int
  | TextBaseline baseline
  | Font int
  | StrokeStyle colour
  | LineWidth int
  | StrokeText jsstring int int
  | FillStyle colour
  | FillText jsstring int int

record canvas =
  canvas_width :: int
  canvas_height :: int
  cmds :: "draw_cmd list"

text \<open>\<open>for (let i = 0; i < 5; i++) ctx.fillText(text, xPos, yPos)\<close>.\<close>

function fill_loop :: "nat \<Rightarrow> jsstring \<Rightarrow> int \<Rightarrow> int \<Rightarrow> draw_cmd list \<Rightarrow> draw_cmd list" where
  "fill_loop i t xPos yPos ctx =
     (if i < 5 then fill_loop (i + 1) t xPos yPos (ctx @ [FillText t xPos yPos]) else ctx)"
  by pat_completeness auto
termination
  by (relation "measure (\<lambda>(i, t, xPos, yPos, ctx). 5 - i)") auto

text \<open>The block \<open>if (title) { ... }\<close>, with \<open>yPos = 200\<close>.\<close>

definition draw_title :: "settings \<Rightarrow> jsstring \<Rightarrow> draw_cmd list \<Rightarrow> draw_cmd list" where
  "draw_title currentSettings title ctx =
     (let yPos = 200
      in if truthy title then
           (let xPos = 190;
                ctx1 = ctx @ [Font (numberFontSize currentSettings),
                              StrokeStyle White, LineWidth 6, StrokeText title xPos yPos,
                              FillStyle Black]
            in fill_loop 0 title xPos yPos ctx1)
         else ctx)"

text \<open>The body of \<open>contentLines.forEach(line => ...)\<close> on the context and \<open>yPos\<close>.\<close>

definition draw_content :: "settings \<Rightarrow> draw_cmd list \<times> int \<Rightarrow> jsstring \<Rightarrow> draw_cmd list \<times> int" where
  "draw_content currentSettings st line =
     (let (ctx, yPos) = st;
          xPos = 190;
          ctx1 = ctx @ [Font (contentFontSize currentSettings),
                        StrokeStyle White, LineWidth 6, StrokeText line xPos yPos,
                        FillStyle Black];
          ctx2 = fill_loop 0 line xPos yPos ctx1
      in (ctx2, yPos + lineSpacing currentSettings))"

text \<open>The canvas of one section when \<open>toDataURL\<close> is called.\<close>

definition paint :: "settings \<Rightarrow> jsstring \<Rightarrow> canvas" where
  "paint currentSettings section =
     (let w = 1920; h = 1080;
          ctx0 = [ClearRect 0 0 w h, TextBaseline Top];
          wrappedLines = wrap_section section;
          (title, contentLines) = classify wrappedLines;
          ctx1 = draw_title currentSettings title ctx0;
          yPos = 200 + numberContentSpacing currentSettings;
          (ctx2, yPos') = foldl (draw_content currentSettings) (ctx1, yPos) contentLines
      in \<lparr>canvas_width = w, canvas_height = h, cmds = ctx2\<rparr>)"

section \<open>The batch of \<open>processFile\<close>\<close>

text \<open>
  What the source takes from the browser is a parameter: whether \<open>getContext('2d')\<close>
  gives a context for the canvas of the section with a given index (when it gives
  \<open>null\<close>, \<open>ctx.clearRect\<close> throws a TypeError, which rejects the promise), and
  \<open>toDataURL\<close>, which encodes a canvas or throws. \<open>file.text()\<close> gives the text or
  rejects.
\<close>

datatype js_error = TypeError | NotReadableError | EncodingError

record browser =
  getContext2d :: "nat \<Rightarrow> bool"
  toDataURL :: "canvas \<Rightarrow> js_error + jsstring"

datatype js_file = Readable jsstring | Unreadable

definition generateImage :: "browser \<Rightarrow> jsstring \<Rightarrow> nat \<Rightarrow> settings \<Rightarrow> js_error + jsstring" where
  "generateImage b section index currentSettings =
     (if \<not> getContext2d b index then Inl TypeError
      else toDataURL b (paint currentSettings section))"

text \<open>
  The loop \<open>for (let i = 0; i < sections.length; i++)\<close>: \<open>secs\<close> holds the sections from
  index \<open>i\<close> on. A rejected \<open>await\<close> leaves the loop with the error.
\<close>

fun generate_loop :: "browser \<Rightarrow> settings \<Rightarrow> nat \<Rightarrow> jsstring list \<Rightarrow> jsstring list
    \<Rightarrow> js_error + jsstring list" where
  "generate_loop b st i [] generatedImages = Inr generatedImages"
| "generate_loop b st i (section # secs) generatedImages =
     (case generateImage b section (i + 1) st of
        Inl e \<Rightarrow> Inl e
      | Inr imageData \<Rightarrow> generate_loop b st (i + 1) secs (generatedImages @ [imageData]))"

text \<open>The body of the \<open>try\<close> block up to the call of \<open>setImages\<close>.\<close>

definition try_body :: "browser \<Rightarrow> settings \<Rightarrow> js_file \<Rightarrow> js_error + jsstring list" where
  "try_body b st f =
     (case f of
        Unreadable \<Rightarrow> Inl NotReadableError
      | Readable text \<Rightarrow> generate_loop b st 0 (sections text) [])"

text \<open>
  The state of the page that \<open>processFile\<close> reads and writes. \<open>alerts\<close> collects the
  calls of \<open>alert\<close>; the one message of \<open>processFile\<close> reads "an error occurred while
  processing the file".
\<close>

datatype alert = FileProcessingFailed

record page =
  page_file :: "js_file option"
  processing :: bool
  images :: "jsstring list"
  alerts :: "alert list"
  page_settings :: settings

definition processFile :: "browser \<Rightarrow> page \<Rightarrow> page" where
  "processFile b s =
     (case page_file s of
        None \<Rightarrow> s
      | Some f \<Rightarrow>
          (let s1 = s\<lparr>processing := True, images := []\<rparr>;
               s2 = (case try_body b (page_settings s) f of
                       Inr generatedImages \<Rightarrow> s1\<lparr>images := generatedImages\<rparr>
                     | Inl e \<Rightarrow> s1\<lparr>alerts := alerts s1 @ [FileProcessingFailed]\<rparr>)
           in s2\<lparr>processing := False\<rparr>))"

section \<open>The settings handlers\<close>

text \<open>
  \<open>parseInt(string)\<close> without a radix: leading white space is dropped, one sign is read,
  a prefix \<open>0x\<close> or \<open>0X\<close> selects radix 16 (radix 10 otherwise), and the longest run of
  digits of that radix is read; with no digit the result is NaN, here \<open>None\<close>. The result
  is the mathematical value; JavaScript rounds it to a double, which changes neither
  whether it is zero nor its sign.
\<close>

definition digit_value :: "code_unit \<Rightarrow> nat option" where
  "digit_value c =
     (if 0x30 \<le> c \<and> c \<le> 0x39 then Some (unat c - 48)
      else if 0x61 \<le> c \<and> c \<le> 0x7A then Some (unat c - 87)
      else if 0x41 \<le> c \<and> c \<le> 0x5A then Some (unat c - 55)
      else None)"

definition is_radix_digit :: "nat \<Rightarrow> code_unit \<Rightarrow> bool" where
  "is_radix_digit R c = (case digit_value c of None \<Rightarrow> False | Some d \<Rightarrow> d < R)"

definition digits_value :: "nat \<Rightarrow> jsstring \<Rightarrow> nat" where
  "digits_value R Z = foldl (\<lambda>a c. a * R + the (digit_value c)) 0 Z"

definition PLUS :: code_unit where
  "PLUS = 0x2B"

definition parseInt :: "jsstring \<Rightarrow> int option" where
  "parseInt string =
     (let S = js_trimStart string;
          sign = (if S \<noteq> [] \<and> hd S = HYPHEN then - 1 else 1);
          S1 = (if S \<noteq> [] \<and> (hd S = PLUS \<or> hd S = HYPHEN) then tl S else S);
          hex = (2 \<le> length S1 \<and> (take 2 S1 = [0x30, 0x78] \<or> take 2 S1 = [0x30, 0x58]));
          R = (if hex then 16 else 10);
          S2 = (if hex then drop 2 S1 else S1);
          Z = takeWhile (is_radix_digit R) S2
      in if Z = [] then None else Some (sign * int (digits_value R Z)))"

text \<open>\<open>n || d\<close> on a number \<open>n\<close>: NaN and zero are falsy.\<close>

definition js_or :: "int option \<Rightarrow> int \<Rightarrow> int" where
  "js_or n d = (case n of None \<Rightarrow> d | Some v \<Rightarrow> if v = 0 then d else v)"

text \<open>The initial value of \<open>useState\<close> and the four \<open>onChange\<close> handlers.\<close>

definition initial_settings :: settings where
  "initial_settings =
     \<lparr>contentFontSize = 62, numberFontSize = 41, numberContentSpacing = 55, lineSpacing = 70\<rparr>"

definition onChange_contentFontSize :: "settings \<Rightarrow> jsstring \<Rightarrow> settings" where
  "onChange_contentFontSize s v = s\<lparr>contentFontSize := js_or (parseInt v) 62\<rparr>"

definition onChange_numberFontSize :: "settings \<Rightarrow> jsstring \<Rightarrow> settings" where
  "onChange_numberFontSize s v = s\<lparr>numberFontSize := js_or (parseInt v) 41\<rparr>"

definition onChange_numberContentSpacing :: "settings \<Rightarrow> jsstring \<Rightarrow> settings" where
  "onChange_numberContentSpacing s v = s\<lparr>numberContentSpacing := js_or (parseInt v) 55\<rparr>"

definition onChange_lineSpacing :: "settings \<Rightarrow> jsstring \<Rightarrow> settings" where
  "onChange_lineSpacing s v = s\<lparr>lineSpacing := js_or (parseInt v) 70\<rparr>"

text \<open>A run of the page: change events on the four inputs, one after the other.\<close>

datatype field = ContentFontSize | NumberFontSize | NumberContentSpacing | LineSpacing

fun onChange :: "settings \<Rightarrow> field \<times> jsstring \<Rightarrow> settings" where
  "onChange s (ContentFontSize, v) = onChange_contentFontSize s v"
| "onChange s (NumberFontSize, v) = onChange_numberFontSize s v"
| "onChange s (NumberContentSpacing, v) = onChange_numberContentSpacing s v"
| "onChange s (LineSpacing, v) = onChange_lineSpacing s v"

definition after_changes :: "(field \<times> jsstring) list \<Rightarrow> settings" where
  "after_changes events = foldl onChange initial_settings events"

section \<open>Notions of the specification\<close>

text \<open>
  A text seen as segments between delimiter runs: \<open>join_segments c [(n1, c1), ...]\<close> is
  \<open>c\<close>, then \<open>n1\<close> hyphens, then \<open>c1\<close>, and so on. The segments are \<open>well_delimited\<close>
  when every run has at least 20 hyphens and is maximal (no hyphen touches it on either
  side, so no segment between two runs is empty) and no segment holds 20 hyphens in a row.
  The first and the last segment may be empty.
\<close>

definition no_delimiter :: "jsstring \<Rightarrow> bool" where
  "no_delimiter s = (\<not> sublist (replicate 20 HYPHEN) s)"

fun join_segments :: "jsstring \<Rightarrow> (nat \<times> jsstring) list \<Rightarrow> jsstring" where
  "join_segments c [] = c"
| "join_segments c ((n, c') # rest) = c @ replicate n HYPHEN @ join_segments c' rest"

fun well_delimited :: "jsstring \<Rightarrow> (nat \<times> jsstring) list \<Rightarrow> bool" where
  "well_delimited c [] = no_delimiter c"
| "well_delimited c ((n, c') # rest) =
     (no_delimiter c \<and> (c = [] \<or> last c \<noteq> HYPHEN) \<and> 20 \<le> n
      \<and> (if c' = [] then rest = [] else hd c' \<noteq> HYPHEN) \<and> well_delimited c' rest)"

text \<open>
  The test that makes a wrapped line the title, and what the source leaves of such a line.
\<close>

definition title_line :: "jsstring \<Rightarrow> bool" where
  "title_line l = (js_includes l HEADER \<and> js_includes l SUFFIX)"

definition strip_title :: "jsstring \<Rightarrow> jsstring" where
  "strip_title l = js_trim (replace_first (replace_first l HEADER_SP []) SUFFIX [])"

text \<open>
  The outline technique for one text line: font size, a white stroke of width 6, then the
  black fill, issued five times in all at the same position.
\<close>

definition outlined_text :: "int \<Rightarrow> jsstring \<Rightarrow> int \<Rightarrow> int \<Rightarrow> draw_cmd list" where
  "outlined_text sz t x y =
     [Font sz, StrokeStyle White, LineWidth 6, StrokeText t x y, FillStyle Black]
     @ replicate 5 (FillText t x y)"

text \<open>
  The content lines from the offset \<open>y\<close> on: each line at x-offset 190 and at font size
  \<open>contentFontSize\<close>, each next line \<open>lineSpacing\<close> further down.
\<close>

fun content_draws :: "settings \<Rightarrow> int \<Rightarrow> jsstring list \<Rightarrow> draw_cmd list" where
  "content_draws st y [] = []"
| "content_draws st y (l # ls) =
     outlined_text (contentFontSize st) l 190 y @ content_draws st (y + lineSpacing st) ls"

text \<open>
  An input value with no number in it: after leading white space and one sign, it is empty
  or does not start with a decimal digit.
\<close>

definition strip_sign :: "jsstring \<Rightarrow> jsstring" where
  "strip_sign S = (if S \<noteq> [] \<and> (hd S = PLUS \<or> hd S = HYPHEN) then tl S else S)"

definition non_numeric :: "jsstring \<Rightarrow> bool" where
  "non_numeric v =
     (case strip_sign (js_trimStart v) of
        [] \<Rightarrow> True
      | c # cs \<Rightarrow> \<not> (0x30 \<le> c \<and> c \<le> 0x39))"

text \<open>The documented default of each field, and the field's value in a settings record.\<close>

fun default_of :: "field \<Rightarrow> int" where
  "default_of ContentFontSize = 62"
| "default_of NumberFontSize = 41"
| "default_of NumberContentSpacing = 55"
| "default_of LineSpacing = 70"

fun field_value :: "field \<Rightarrow> settings \<Rightarrow> int" where
  "field_value ContentFontSize s = contentFontSize s"
| "field_value NumberFontSize s = numberFontSize s"
| "field_value NumberContentSpacing s = numberContentSpacing s"
| "field_value LineSpacing s = lineSpacing s"

section \<open>Example inputs\<close>

text \<open>
  A text of three segments (the letter A, a blank segment, the letter B), a browser whose
  \<open>toDataURL\<close> returns the stroked texts of the canvas, the same browser giving no
  context for the second canvas, and a page that holds a file and one earlier image.
\<close>

definition example_text :: jsstring where
  "example_text = [0x41] @ replicate 20 HYPHEN @ [0x20] @ replicate 21 HYPHEN @ [0x42]"

definition example_browser :: browser where
  "example_browser =
     \<lparr>getContext2d = (\<lambda>i. True),
      toDataURL = (\<lambda>c. Inr (concat (map (\<lambda>d. case d of StrokeText t x y \<Rightarrow> t | _ \<Rightarrow> [])
                                          (cmds c))))\<rparr>"

definition failing_browser :: browser where
  "failing_browser = example_browser\<lparr>getContext2d := (\<lambda>i. i \<noteq> 2)\<rparr>"

definition example_page :: "jsstring \<Rightarrow> page" where
  "example_page text =
     \<lparr>page_file = Some (Readable text), processing = False, images = [[0x58]], alerts = [],
      page_settings = initial_settings\<rparr>"

text \<open>
  The section text of the title scenario: header, a space, the digit 3, the suffix, a
  newline and a five-syllable greeting.
\<close>

definition scenario_text :: jsstring where
  "scenario_text = [0xCC3D, 0xC138, 0xAE30, 0x20, 0x31, 0xC7A5, 0x20, 0x33, 0xC808, 0x0A,
                    0xC548, 0xB155, 0xD558, 0xC138, 0xC694]"

section \<open>Properties of the wrapper\<close>

lemma foldl_wrap_step:
  "(case foldl wrap_step (wl, cur) (split_chars cs) of
      (wl', cur') \<Rightarrow> if truthy cur' then wl' @ [cur'] else wl') = wl @ greedy_wrap cur cs"
proof (induction cs arbitrary: wl cur)
  case Nil
  show ?case by (simp add: split_chars_def truthy_def)
next
  case (Cons c cs)
  have step: "foldl wrap_step (wl, cur) (split_chars (c # cs)) =
              foldl wrap_step (wrap_step (wl, cur) [c]) (split_chars cs)"
    by (simp add: split_chars_def)
  show ?case
  proof (cases "length cur + 1 > 25")
    case True
    then have "wrap_step (wl, cur) [c] = (wl @ [cur], [c])"
      by (simp add: wrap_step_def)
    with Cons.IH [of "wl @ [cur]" "[c]"] step True show ?thesis by simp
  next
    case False
    then have "wrap_step (wl, cur) [c] = (wl, cur @ [c])"
      by (simp add: wrap_step_def)
    with Cons.IH [of wl "cur @ [c]"] step False show ?thesis by simp
  qed
qed

lemma wrap_line_greedy:
  "wrap_line wl line = wl @ (if js_trim line \<noteq> [] then greedy_wrap [] line else [])"
  using foldl_wrap_step [of wl "[]" line]
  by (simp add: wrap_line_def truthy_def split: prod.splits)

lemma foldl_wrap_line:
  "foldl wrap_line wl ls =
   wl @ concat (map (\<lambda>l. if js_trim l \<noteq> [] then greedy_wrap [] l else []) ls)"
  by (induction ls arbitrary: wl) (simp_all add: wrap_line_greedy)

lemma wrap_section_greedy:
  "wrap_section section = concat (map (greedy_wrap []) (logical_lines section))"
proof -
  have eq: "map (\<lambda>l. if js_trim l \<noteq> [] then greedy_wrap [] l else []) (logical_lines section)
        = map (greedy_wrap []) (logical_lines section)"
    by (rule map_cong) (auto simp: logical_lines_def)
  have "wrap_section section =
        concat (map (\<lambda>l. if js_trim l \<noteq> [] then greedy_wrap [] l else [])
                    (logical_lines section))"
    by (simp add: wrap_section_def foldl_wrap_line logical_lines_def truthy_def)
  then show ?thesis by (simp only: eq)
qed

lemma greedy_wrap_length:
  "length acc \<le> 25 \<Longrightarrow> w \<in> set (greedy_wrap acc cs) \<Longrightarrow> length w \<le> 25"
  by (induction acc cs rule: greedy_wrap.induct) (auto split: if_splits)

lemma greedy_wrap_concat: "concat (greedy_wrap acc cs) = acc @ cs"
  by (induction acc cs rule: greedy_wrap.induct) auto


text \<open>
  Claim C1. For every logical line of a section (the newline-delimited lines that are not
  blank), the wrapper produces the wrapped lines of greedy character accumulation: the
  array \<open>wrappedLines\<close> that the two nested iterations of \<open>generateImage\<close> fill is the
  concatenation, over the logical lines in order, of what \<open>greedy_wrap\<close> emits from the
  empty accumulator.
\<close>

theorem wrapper_is_greedy_accumulation:
  "wrap_section section = concat (map (greedy_wrap []) (logical_lines section))"
  by (rule wrap_section_greedy)

text \<open>
  Claim C2. Every wrapped line that the wrapper produces, for every input string, has at
  most 25 code units.
\<close>

theorem wrapped_line_length_le_25:
  "\<forall>w \<in> set (wrap_section section). length w \<le> 25"
proof
  fix w
  assume "w \<in> set (wrap_section section)"
  then obtain l where "w \<in> set (greedy_wrap [] l)"
    by (auto simp: wrap_section_greedy)
  then show "length w \<le> 25"
    using greedy_wrap_length [of "[]" w l] by simp
qed

theorem wrapped_line_length_le_25_witness:
  "replicate 25 0x41 \<in> set (wrap_section (replicate 26 0x41))
   \<and> length (replicate 25 (0x41 :: code_unit)) \<le> 25"
proof -
  have mem: "replicate 25 0x41 \<in> set (wrap_section (replicate 26 0x41))"
    by code_simp
  from wrapped_line_length_le_25 [of "replicate 26 0x41"] mem
  have "length (replicate 25 (0x41 :: code_unit)) \<le> 25"
    by (rule bspec)
  with mem show ?thesis by simp
qed

lemma concat_greedy_lines: "concat (concat (map (greedy_wrap []) ls)) = concat ls"
  by (induction ls) (simp_all add: greedy_wrap_concat)

text \<open>
  Claim C9. For every logical line whose trimmed content is not empty, the concatenation
  of the wrapped lines produced from it, in order, is the line itself: wrapping drops,
  duplicates and reorders no character. Hence the wrapped lines of a whole section
  concatenate to its logical lines.
\<close>

theorem wrap_line_concat_roundtrip:
  "js_trim line \<noteq> [] \<Longrightarrow>
   concat (wrap_line [] line) = line
   \<and> concat (wrap_section section) = concat (logical_lines section)"
  by (simp add: wrap_line_greedy greedy_wrap_concat wrap_section_greedy concat_greedy_lines)

theorem wrap_line_concat_roundtrip_witness:
  "js_trim (replicate 26 (0x41 :: code_unit)) \<noteq> []
   \<and> wrap_line [] (replicate 26 0x41) = [replicate 25 0x41, [0x41]]
   \<and> concat (wrap_line [] (replicate 26 0x41)) = replicate 26 0x41"
proof -
  have nonblank: "js_trim (replicate 26 (0x41 :: code_unit)) \<noteq> []"
    by code_simp
  have lines: "wrap_line [] (replicate 26 0x41) = [replicate 25 0x41, [0x41]]"
    by code_simp
  from wrap_line_concat_roundtrip [OF nonblank] nonblank lines show ?thesis
    by simp
qed

section \<open>Properties of the section splitter\<close>

lemma takeWhile_hyphen: "takeWhile (\<lambda>c. c = HYPHEN) s = replicate (hyphen_run s) HYPHEN"
  unfolding hyphen_run_def by (induction s) auto

lemma hyphen_run_lt_20:
  assumes "no_delimiter s"
  shows "hyphen_run s < 20"
proof (rule ccontr)
  assume "\<not> hyphen_run s < 20"
  then obtain k where k: "hyphen_run s = 20 + k"
    by (metis add.commute le_Suc_ex not_less)
  have "s = takeWhile (\<lambda>c. c = HYPHEN) s @ dropWhile (\<lambda>c. c = HYPHEN) s"
    by simp
  then have "s = replicate 20 HYPHEN @ (replicate k HYPHEN @ dropWhile (\<lambda>c. c = HYPHEN) s)"
    by (simp add: takeWhile_hyphen k replicate_add)
  then have "sublist (replicate 20 HYPHEN) s"
    by (metis sublist_append_rightI)
  with assms show False by (simp add: no_delimiter_def)
qed

lemma no_delimiter_tl: "no_delimiter (c # cs) \<Longrightarrow> no_delimiter cs"
  by (simp add: no_delimiter_def sublist_Cons_right)

lemma split_delim_no_delimiter:
  "no_delimiter s \<Longrightarrow> split_delim cur s = [cur @ s]"
proof (induction s arbitrary: cur)
  case Nil
  show ?case by simp
next
  case (Cons c cs)
  from Cons.prems have "hyphen_run (c # cs) < 20" by (rule hyphen_run_lt_20)
  moreover from Cons.prems have "no_delimiter cs" by (rule no_delimiter_tl)
  ultimately show ?case using Cons.IH [of "cur @ [c]"] by simp
qed

lemma hyphen_run_append:
  "a \<noteq> [] \<Longrightarrow> last a \<noteq> HYPHEN \<Longrightarrow> hyphen_run (a @ s) = hyphen_run a"
  unfolding hyphen_run_def
  by (rule arg_cong [where f = length], rule takeWhile_append1 [where x = "last a"]) auto

lemma hyphen_run_delimiter:
  "b = [] \<or> hd b \<noteq> HYPHEN \<Longrightarrow> hyphen_run (replicate n HYPHEN @ b) = n"
proof -
  assume b: "b = [] \<or> hd b \<noteq> HYPHEN"
  have "takeWhile (\<lambda>c. c = HYPHEN) (replicate n HYPHEN @ b) =
        replicate n HYPHEN @ takeWhile (\<lambda>c. c = HYPHEN) b"
    by (rule takeWhile_append2) simp
  moreover from b have "takeWhile (\<lambda>c. c = HYPHEN) b = []"
    by (cases b) auto
  ultimately show ?thesis by (simp add: hyphen_run_def)
qed

lemma split_delim_at_run:
  assumes "20 \<le> n" and "b = [] \<or> hd b \<noteq> HYPHEN"
  shows "split_delim cur (replicate n HYPHEN @ b) = cur # split_delim [] b"
proof -
  from assms(1) obtain m where n: "n = Suc m" by (cases n) auto
  have run: "hyphen_run (HYPHEN # replicate m HYPHEN @ b) = n"
    using hyphen_run_delimiter [OF assms(2), of n] by (simp add: n)
  have "split_delim cur (HYPHEN # replicate m HYPHEN @ b) =
        cur # split_delim [] (drop n (HYPHEN # replicate m HYPHEN @ b))"
    using assms(1) run by simp
  then show ?thesis by (simp add: n)
qed

lemma split_delim_segment:
  assumes "no_delimiter a" and "a = [] \<or> last a \<noteq> HYPHEN"
    and "20 \<le> n" and "b = [] \<or> hd b \<noteq> HYPHEN"
  shows "split_delim cur (a @ replicate n HYPHEN @ b) = (cur @ a) # split_delim [] b"
  using assms(1,2)
proof (induction a arbitrary: cur)
  case Nil
  show ?case using split_delim_at_run [OF assms(3,4)] by simp
next
  case (Cons c cs)
  from Cons.prems have last: "last (c # cs) \<noteq> HYPHEN" by simp
  have "hyphen_run ((c # cs) @ replicate n HYPHEN @ b) = hyphen_run (c # cs)"
    by (rule hyphen_run_append) (use last in simp_all)
  moreover from Cons.prems(1) have "hyphen_run (c # cs) < 20" by (rule hyphen_run_lt_20)
  ultimately have small: "\<not> 20 \<le> hyphen_run (c # cs @ replicate n HYPHEN @ b)" by simp
  from Cons.prems(1) have nd: "no_delimiter cs" by (rule no_delimiter_tl)
  from last have bd: "cs = [] \<or> last cs \<noteq> HYPHEN" by (cases cs) auto
  from small Cons.IH [OF nd bd, of "cur @ [c]"] show ?case by simp
qed

lemma split_delim_join_segments:
  "well_delimited c rest \<Longrightarrow> split_delim cur (join_segments c rest) = (cur @ c) # map snd rest"
proof (induction rest arbitrary: c cur)
  case Nil
  then show ?case by (simp add: split_delim_no_delimiter)
next
  case (Cons p rest)
  obtain n c' where p: "p = (n, c')" by (cases p)
  from Cons.prems p have wd: "no_delimiter c" "c = [] \<or> last c \<noteq> HYPHEN" "20 \<le> n"
    "well_delimited c' rest" by simp_all
  have hd: "join_segments c' rest = [] \<or> hd (join_segments c' rest) \<noteq> HYPHEN"
    using Cons.prems p by (cases rest; cases c') auto
  show ?case
    using split_delim_segment [OF wd(1,2,3) hd, of cur] Cons.IH [OF wd(4), of "[]"] p by simp
qed

lemma split_delim_no_hyphen:
  "HYPHEN \<notin> set a \<Longrightarrow> split_delim cur (a @ s) = split_delim (cur @ a) s"
  by (induction a arbitrary: cur) (auto simp: hyphen_run_def)

lemma split_delim_short_run:
  "n < 20 \<Longrightarrow> b = [] \<or> hd b \<noteq> HYPHEN \<Longrightarrow>
   split_delim cur (replicate n HYPHEN @ b) = split_delim (cur @ replicate n HYPHEN) b"
proof (induction n arbitrary: cur)
  case 0
  show ?case by simp
next
  case (Suc n)
  have "hyphen_run (HYPHEN # replicate n HYPHEN @ b) = Suc n"
    using hyphen_run_delimiter [OF Suc.prems(2), of "Suc n"] by simp
  with Suc.prems have "split_delim cur (HYPHEN # replicate n HYPHEN @ b) =
      split_delim (cur @ [HYPHEN]) (replicate n HYPHEN @ b)" by simp
  also have "\<dots> = split_delim ((cur @ [HYPHEN]) @ replicate n HYPHEN) b"
    using Suc.prems by (intro Suc.IH) simp_all
  finally show ?case by (simp add: replicate_app_Cons_same)
qed

lemma split_delim_19:
  assumes "HYPHEN \<notin> set a" and "HYPHEN \<notin> set b"
  shows "split_delim [] (a @ replicate 19 HYPHEN @ b) = [a @ replicate 19 HYPHEN @ b]"
proof -
  from assms(2) have b: "b = [] \<or> hd b \<noteq> HYPHEN" by (cases b) auto
  have "split_delim [] (a @ replicate 19 HYPHEN @ b) = split_delim a (replicate 19 HYPHEN @ b)"
    using split_delim_no_hyphen [OF assms(1), of "[]"] by simp
  also have "\<dots> = split_delim (a @ replicate 19 HYPHEN) b"
    by (rule split_delim_short_run) (use b in simp_all)
  also have "\<dots> = split_delim ((a @ replicate 19 HYPHEN) @ b) []"
    using split_delim_no_hyphen [OF assms(2), of "a @ replicate 19 HYPHEN" "[]"] by simp
  finally show ?thesis by simp
qed

lemma js_trim_nonblank: "x \<in> set s \<Longrightarrow> \<not> is_ws x \<Longrightarrow> js_trim s \<noteq> []"
proof -
  assume x: "x \<in> set s" and nws: "\<not> is_ws x"
  have "set s = set (takeWhile is_ws s) \<union> set (dropWhile is_ws s)"
    by (metis set_append takeWhile_dropWhile_id)
  moreover have "x \<notin> set (takeWhile is_ws s)"
    using nws by (auto dest: set_takeWhileD)
  ultimately have "x \<in> set (rev (dropWhile is_ws s))" using x by auto
  with nws have "dropWhile is_ws (rev (dropWhile is_ws s)) \<noteq> []"
    by (auto simp: dropWhile_eq_Nil_conv)
  then show ?thesis by (simp add: js_trim_def)
qed


lemma prefix_hyphens_run:
  assumes "prefix (replicate 20 HYPHEN) s"
  shows "20 \<le> hyphen_run s"
proof -
  from assms obtain t where s: "s = replicate 20 HYPHEN @ t"
    by (auto simp: prefix_def)
  have "takeWhile (\<lambda>c. c = HYPHEN) (replicate 20 HYPHEN @ t) =
        replicate 20 HYPHEN @ takeWhile (\<lambda>c. c = HYPHEN) t"
    by (rule takeWhile_append2) simp
  then show ?thesis by (simp add: hyphen_run_def s)
qed

lemma no_delimiter_Cons:
  assumes "hyphen_run (c # a @ t) < 20" and "no_delimiter a"
  shows "no_delimiter (c # a)"
proof -
  have "\<not> prefix (replicate 20 HYPHEN) (c # a)"
  proof
    assume "prefix (replicate 20 HYPHEN) (c # a)"
    then have "prefix (replicate 20 HYPHEN) (c # a @ t)"
      by (metis append_Cons prefix_prefix)
    then have "20 \<le> hyphen_run (c # a @ t)" by (rule prefix_hyphens_run)
    with assms(1) show False by simp
  qed
  with assms(2) show ?thesis by (simp add: no_delimiter_def sublist_Cons_right)
qed

lemma hyphen_run_Cons_run:
  "20 \<le> n \<Longrightarrow> 20 \<le> hyphen_run (HYPHEN # replicate n HYPHEN @ t)"
proof -
  assume n: "20 \<le> n"
  have "takeWhile (\<lambda>c. c = HYPHEN) (replicate (Suc n) HYPHEN @ t) =
        replicate (Suc n) HYPHEN @ takeWhile (\<lambda>c. c = HYPHEN) t"
    by (rule takeWhile_append2) auto
  then have "Suc n \<le> hyphen_run (replicate (Suc n) HYPHEN @ t)"
    by (simp add: hyphen_run_def)
  with n show ?thesis by simp
qed

lemma segments_exist:
  fixes cur :: jsstring
  shows "\<exists>c rest. well_delimited c rest \<and> join_segments c rest = s"
proof (induction cur s rule: split_delim.induct)
  case (1 cur)
  have "well_delimited [] [] \<and> join_segments [] [] = []"
    by (simp add: no_delimiter_def)
  then show ?case by blast
next
  case (2 cur c cs)
  let ?s = "c # cs"
  show ?case
  proof (cases "20 \<le> hyphen_run ?s")
    case True
    let ?n = "hyphen_run ?s"
    let ?b = "drop ?n ?s"
    have b: "?b = dropWhile (\<lambda>c. c = HYPHEN) ?s"
      by (simp add: hyphen_run_def dropWhile_eq_drop)
    obtain c' rest' where IH: "well_delimited c' rest'" "join_segments c' rest' = ?b"
      using "2.IH"(1) [OF True] by blast
    have "?s = takeWhile (\<lambda>c. c = HYPHEN) ?s @ dropWhile (\<lambda>c. c = HYPHEN) ?s"
      by (simp only: takeWhile_dropWhile_id)
    then have s: "?s = replicate ?n HYPHEN @ ?b"
      by (simp only: b takeWhile_hyphen)
    have nostart: "?b = [] \<or> hd ?b \<noteq> HYPHEN"
      using hd_dropWhile [of "\<lambda>c. c = HYPHEN" ?s] by (auto simp only: b)
    have "if c' = [] then rest' = [] else hd c' \<noteq> HYPHEN"
    proof (cases "c' = []")
      case True
      show ?thesis
      proof (cases rest')
        case Nil
        with True show ?thesis by simp
      next
        case (Cons p ps)
        obtain m d where "p = (m, d)" by (cases p)
        with Cons IH True have "20 \<le> m" "?b = replicate m HYPHEN @ join_segments d ps"
          by auto
        then have "?b \<noteq> [] \<and> hd ?b = HYPHEN" by (cases m) auto
        with nostart show ?thesis by simp
      qed
    next
      case False
      obtain x xs where c': "c' = x # xs" using False by (cases c') auto
      have "join_segments c' rest' = x # tl (join_segments c' rest')"
        unfolding c' by (cases rest') auto
      with IH(2) c' have "hd ?b = hd c'" "?b \<noteq> []"
        by (metis list.sel(1), metis list.distinct(1))
      with nostart False show ?thesis by simp
    qed
    with IH True have "well_delimited [] ((?n, c') # rest')"
      by (simp add: no_delimiter_def)
    moreover have "join_segments [] ((?n, c') # rest') = ?s"
      using s IH(2) by simp
    ultimately show ?thesis by blast
  next
    case False
    then have small: "hyphen_run ?s < 20" by simp
    obtain c' rest' where IH: "well_delimited c' rest'" "join_segments c' rest' = cs"
      using "2.IH"(2) [OF False] by blast
    have "well_delimited (c # c') rest'"
    proof (cases rest')
      case Nil
      with IH have "cs = c'" "no_delimiter c'" by simp_all
      with small have "no_delimiter (c # c')"
        using no_delimiter_Cons [of c c' "[]"] by simp
      with Nil show ?thesis by simp
    next
      case (Cons p ps)
      obtain m d where p: "p = (m, d)" by (cases p)
      from IH Cons p have wd: "no_delimiter c'" "c' = [] \<or> last c' \<noteq> HYPHEN" "20 \<le> m"
        "if d = [] then ps = [] else hd d \<noteq> HYPHEN" "well_delimited d ps"
        and cs: "cs = c' @ replicate m HYPHEN @ join_segments d ps"
        by auto
      from small cs wd(1) have nd: "no_delimiter (c # c')"
        using no_delimiter_Cons [of c c' "replicate m HYPHEN @ join_segments d ps"] by simp
      have "last (c # c') \<noteq> HYPHEN"
      proof (cases "c' = []")
        case True
        have "c \<noteq> HYPHEN"
        proof
          assume "c = HYPHEN"
          with cs True have "?s = HYPHEN # replicate m HYPHEN @ join_segments d ps" by simp
          with hyphen_run_Cons_run [OF wd(3), of "join_segments d ps"] small
          show False by simp
        qed
        with True show ?thesis by simp
      next
        case False
        with wd(2) show ?thesis by simp
      qed
      with nd wd Cons p show ?thesis by simp
    qed
    moreover have "join_segments (c # c') rest' = ?s"
      using IH(2) by (cases rest') auto
    ultimately show ?thesis by blast
  qed
qed


lemma sections_join_segments:
  "well_delimited c rest \<Longrightarrow>
   sections (join_segments c rest) = filter (\<lambda>s. js_trim s \<noteq> []) (c # map snd rest)"
  using split_delim_join_segments [of c rest "[]"] by (simp add: sections_def truthy_def)

lemma not_ws_HYPHEN: "\<not> is_ws HYPHEN"
  by (simp add: is_ws_def HYPHEN_def)

text \<open>
  Claim C3. The splitter splits the text exactly at the runs of 20 or more hyphens and
  discards the runs: every text is a sequence of well-delimited segments, and for such a
  sequence the pieces of the split are the segments, in order; a run of exactly 19 hyphens
  between two hyphen-free texts does not split and stays in the one section; and every
  chunk that is blank after trimming is discarded.
\<close>

theorem splitter_delimiter_runs:
  "(\<exists>c rest. well_delimited c rest \<and> join_segments c rest = text)
   \<and> (well_delimited c rest \<longrightarrow>
        split_delim [] (join_segments c rest) = c # map snd rest
        \<and> sections (join_segments c rest) = filter (\<lambda>s. js_trim s \<noteq> []) (c # map snd rest))
   \<and> (HYPHEN \<notin> set a \<and> HYPHEN \<notin> set b \<longrightarrow>
        sections (a @ replicate 19 HYPHEN @ b) = [a @ replicate 19 HYPHEN @ b])
   \<and> (\<forall>s \<in> set (sections text). js_trim s \<noteq> [])"
proof (intro conjI impI)
  show "\<exists>c rest. well_delimited c rest \<and> join_segments c rest = text"
    by (rule segments_exist)
next
  assume "well_delimited c rest"
  then show "split_delim [] (join_segments c rest) = c # map snd rest"
    using split_delim_join_segments [of c rest "[]"] by simp
next
  assume "well_delimited c rest"
  then show "sections (join_segments c rest) = filter (\<lambda>s. js_trim s \<noteq> []) (c # map snd rest)"
    by (rule sections_join_segments)
next
  assume h: "HYPHEN \<notin> set a \<and> HYPHEN \<notin> set b"
  have "js_trim (a @ replicate 19 HYPHEN @ b) \<noteq> []"
    by (rule js_trim_nonblank [where x = HYPHEN]) (simp_all add: not_ws_HYPHEN)
  with h show "sections (a @ replicate 19 HYPHEN @ b) = [a @ replicate 19 HYPHEN @ b]"
    by (simp add: sections_def truthy_def split_delim_19)
next
  show "\<forall>s \<in> set (sections text). js_trim s \<noteq> []"
    by (simp add: sections_def truthy_def)
qed

theorem splitter_delimiter_runs_witness:
  "well_delimited [0x41] [(20, [0x20]), (21, [0x42])]
   \<and> split_delim [] (join_segments [0x41] [(20, [0x20]), (21, [0x42])]) = [[0x41], [0x20], [0x42]]
   \<and> sections (join_segments [0x41] [(20, [0x20]), (21, [0x42])]) = [[0x41], [0x42]]
   \<and> HYPHEN \<notin> set [0x41] \<and> HYPHEN \<notin> set [0x42]
   \<and> sections ([0x41] @ replicate 19 HYPHEN @ [0x42]) = [[0x41] @ replicate 19 HYPHEN @ [0x42]]
   \<and> [0x41] \<in> set (sections (join_segments [0x41] [(20, [0x20]), (21, [0x42])]))
   \<and> js_trim [0x41] \<noteq> []"
proof -
  have wd: "well_delimited [0x41] [(20, [0x20]), (21, [0x42])]"
    by code_simp
  have nh: "HYPHEN \<notin> set [0x41] \<and> HYPHEN \<notin> set [0x42]"
    by (simp add: HYPHEN_def)
  have blank: "js_trim [0x20] = []" and nonblank: "js_trim [0x41] \<noteq> []" "js_trim [0x42] \<noteq> []"
    by (simp_all add: js_trim_def is_ws_def)
  note inst = splitter_delimiter_runs [of "join_segments [0x41] [(20, [0x20]), (21, [0x42])]"
      "[0x41]" "[(20, [0x20]), (21, [0x42])]" "[0x41]" "[0x42]"]
  from inst wd have split:
    "split_delim [] (join_segments [0x41] [(20, [0x20]), (21, [0x42])]) = [[0x41], [0x20], [0x42]]"
    by simp
  from inst wd blank nonblank have secs:
    "sections (join_segments [0x41] [(20, [0x20]), (21, [0x42])]) = [[0x41], [0x42]]"
    by simp
  from inst nh have s19:
    "sections ([0x41] @ replicate 19 HYPHEN @ [0x42]) = [[0x41] @ replicate 19 HYPHEN @ [0x42]]"
    by blast
  from wd split secs nh s19 nonblank show ?thesis by simp
qed

section \<open>Properties of the painter\<close>

lemma fill_loop_replicate:
  "fill_loop i t x y ctx = ctx @ replicate (5 - i) (FillText t x y)"
proof (induction i t x y ctx rule: fill_loop.induct)
  case (1 i t x y ctx)
  show ?case
  proof (cases "i < 5")
    case True
    then have "5 - i = Suc (5 - (i + 1))" by simp
    then have "replicate (5 - i) (FillText t x y) =
               FillText t x y # replicate (5 - (i + 1)) (FillText t x y)"
      by (simp only: replicate_Suc)
    with True "1.IH" [OF True] show ?thesis
      by (simp del: replicate_Suc)
  next
    case False
    then show ?thesis by simp
  qed
qed

lemma draw_title_outlined:
  "draw_title st title ctx =
   ctx @ (if title \<noteq> [] then outlined_text (numberFontSize st) title 190 200 else [])"
  by (simp add: draw_title_def truthy_def outlined_text_def Let_def eval_nat_numeral)

lemma draw_content_outlined:
  "draw_content st (ctx, y) line =
   (ctx @ outlined_text (contentFontSize st) line 190 y, y + lineSpacing st)"
  by (simp add: draw_content_def outlined_text_def Let_def eval_nat_numeral)

lemma foldl_draw_content:
  "foldl (draw_content st) (ctx, y) ls =
   (ctx @ content_draws st y ls, y + int (length ls) * lineSpacing st)"
  by (induction ls arbitrary: ctx y) (simp_all add: draw_content_outlined algebra_simps)

text \<open>
  Claim C6. For every section the painter issues this sequence on a fresh canvas of
  1920 by 1080: the clear of the whole canvas and the top baseline; then, when the title is
  not empty, the title at font size \<open>numberFontSize\<close>, x-offset 190 and y-offset 200;
  then the content lines at font size \<open>contentFontSize\<close> and x-offset 190, the first at
  y-offset \<open>200 + numberContentSpacing\<close> and each next one \<open>lineSpacing\<close> further. Each
  text line is drawn as \<open>outlined_text\<close>: the white stroke of width 6 first, then the black
  fill five times in all at the same position.
\<close>

theorem painter_draw_sequence:
  "paint st section =
   (let (title, contentLines) = classify (wrap_section section)
    in \<lparr>canvas_width = 1920, canvas_height = 1080,
        cmds = [ClearRect 0 0 1920 1080, TextBaseline Top]
               @ (if title \<noteq> [] then outlined_text (numberFontSize st) title 190 200 else [])
               @ content_draws st (200 + numberContentSpacing st) contentLines\<rparr>)"
  by (simp add: paint_def foldl_draw_content draw_title_outlined Let_def split: prod.splits)

section \<open>Properties of the batch\<close>

lemma generate_loop_ok:
  "(\<forall>j < length secs. \<not> isl (generateImage b (secs ! j) (i + j + 1) st)) \<Longrightarrow>
   generate_loop b st i secs acc =
   Inr (acc @ map (\<lambda>j. projr (generateImage b (secs ! j) (i + j + 1) st)) [0..<length secs])"
proof (induction secs arbitrary: i acc)
  case Nil
  show ?case by simp
next
  case (Cons sec secs)
  from Cons.prems have first: "\<not> isl (generateImage b sec (i + 1) st)"
    by auto
  then obtain img where img: "generateImage b sec (i + 1) st = Inr img"
    by (cases "generateImage b sec (i + 1) st") auto
  have rest: "\<forall>j < length secs. \<not> isl (generateImage b (secs ! j) ((i + 1) + j + 1) st)"
  proof (intro allI impI)
    fix j assume "j < length secs"
    then have "Suc j < length (sec # secs)" by simp
    with Cons.prems have "\<not> isl (generateImage b ((sec # secs) ! Suc j) (i + Suc j + 1) st)"
      by blast
    then show "\<not> isl (generateImage b (secs ! j) ((i + 1) + j + 1) st)" by simp
  qed
  have "map (\<lambda>j. projr (generateImage b ((sec # secs) ! j) (i + j + 1) st)) [0..<length (sec # secs)]
        = img # map (\<lambda>j. projr (generateImage b (secs ! j) ((i + 1) + j + 1) st)) [0..<length secs]"
    using img by (simp add: upt_conv_Cons map_Suc_upt [symmetric] del: upt_Suc)
  with Cons.IH [OF rest, of "acc @ [img]"] img show ?case by simp
qed

lemma generate_loop_fails:
  "j < length secs \<Longrightarrow> isl (generateImage b (secs ! j) (i + j + 1) st) \<Longrightarrow>
   isl (generate_loop b st i secs acc)"
proof (induction secs arbitrary: i j acc)
  case Nil
  then show ?case by simp
next
  case (Cons sec secs)
  show ?case
  proof (cases "generateImage b sec (i + 1) st")
    case (Inl e)
    then show ?thesis by simp
  next
    case (Inr img)
    with Cons.prems obtain k where k: "j = Suc k" by (cases j) auto
    with Cons.prems have "k < length secs" "isl (generateImage b (secs ! k) ((i + 1) + k + 1) st)"
      by simp_all
    from Cons.IH [OF this, of "acc @ [img]"] Inr show ?thesis by simp
  qed
qed

lemma js_trim_blank: "js_trim s = [] \<longleftrightarrow> (\<forall>x \<in> set s. is_ws x)"
proof
  assume "js_trim s = []"
  then show "\<forall>x \<in> set s. is_ws x"
    using js_trim_nonblank [of _ s] by blast
next
  assume "\<forall>x \<in> set s. is_ws x"
  then have "dropWhile is_ws s = []" by simp
  then show "js_trim s = []" by (simp only: js_trim_def rev.simps dropWhile.simps)
qed

lemma sections_blank: "js_trim text = [] \<Longrightarrow> sections text = []"
proof -
  assume blank: "js_trim text = []"
  then have "HYPHEN \<notin> set text"
    using not_ws_HYPHEN by (auto simp: js_trim_blank)
  from split_delim_no_hyphen [OF this, of "[]" "[]"] blank show ?thesis
    by (simp add: sections_def truthy_def)
qed


lemma try_body_ok:
  assumes "\<forall>j < length (sections text). \<not> isl (generateImage b (sections text ! j) (j + 1) st)"
  shows "try_body b st (Readable text) =
         Inr (map (\<lambda>sec. projr (toDataURL b (paint st sec))) (sections text))"
proof -
  have each: "projr (generateImage b (sections text ! j) (j + 1) st) =
              projr (toDataURL b (paint st (sections text ! j)))"
    if "j < length (sections text)" for j
    using assms that by (auto simp: generateImage_def split: if_splits)
  have "map (\<lambda>j. projr (generateImage b (sections text ! j) (0 + j + 1) st))
            [0..<length (sections text)]
        = map (\<lambda>j. projr (toDataURL b (paint st (sections text ! j)))) [0..<length (sections text)]"
    by (rule map_cong) (use each in auto)
  also have "\<dots> = map (\<lambda>sec. projr (toDataURL b (paint st sec))) (sections text)"
    by (rule nth_equalityI) simp_all
  finally show ?thesis
    using generate_loop_ok [of "sections text" b 0 st "[]"] assms
    by (simp add: try_body_def)
qed

text \<open>
  Claim C4. When no section fails to render, \<open>processFile\<close> leaves exactly one image for
  each section, in the order of the sections: the images are the encodings of the sections'
  canvases. For a text of well-delimited segments their number is the number of segments
  that are not blank. A text that is empty or only white space leaves no image and raises
  no alert, whatever the browser does.
\<close>

theorem render_section_count:
  assumes "page_file s = Some (Readable text)"
  shows "((\<forall>j < length (sections text).
             \<not> isl (generateImage b (sections text ! j) (j + 1) (page_settings s))) \<longrightarrow>
          images (processFile b s) =
            map (\<lambda>sec. projr (toDataURL b (paint (page_settings s) sec))) (sections text)
          \<and> length (images (processFile b s)) = length (sections text)
          \<and> (well_delimited c rest \<and> join_segments c rest = text \<longrightarrow>
               length (images (processFile b s)) =
               length (filter (\<lambda>x. js_trim x \<noteq> []) (c # map snd rest)))
          \<and> alerts (processFile b s) = alerts s)
         \<and> (js_trim text = [] \<longrightarrow>
              images (processFile b s) = [] \<and> alerts (processFile b s) = alerts s)"
proof (intro conjI impI)
  assume ok: "\<forall>j < length (sections text).
                \<not> isl (generateImage b (sections text ! j) (j + 1) (page_settings s))"
  from try_body_ok [OF ok] assms
  show imgs: "images (processFile b s) =
          map (\<lambda>sec. projr (toDataURL b (paint (page_settings s) sec))) (sections text)"
    by (simp add: processFile_def)
  then show len: "length (images (processFile b s)) = length (sections text)"
    by simp
  from try_body_ok [OF ok] assms
  show "alerts (processFile b s) = alerts s"
    by (simp add: processFile_def)
  assume "well_delimited c rest \<and> join_segments c rest = text"
  with len sections_join_segments [of c rest]
  show "length (images (processFile b s)) =
        length (filter (\<lambda>x. js_trim x \<noteq> []) (c # map snd rest))"
    by auto
next
  assume "js_trim text = []"
  then have "sections text = []" by (rule sections_blank)
  with assms show "images (processFile b s) = []"
    by (simp add: processFile_def try_body_def)
  from \<open>sections text = []\<close> assms show "alerts (processFile b s) = alerts s"
    by (simp add: processFile_def try_body_def)
qed

text \<open>
  Claim C7. When \<open>generateImage\<close> fails for any one section, the whole batch aborts: the
  page shows the processing alert and holds no image, neither the images of the sections
  rendered before the failing one nor those of an earlier run.
\<close>

theorem batch_aborts_on_failure:
  assumes "page_file s = Some (Readable text)"
    and "j < length (sections text)"
    and "isl (generateImage b (sections text ! j) (j + 1) (page_settings s))"
  shows "images (processFile b s) = []
         \<and> alerts (processFile b s) = alerts s @ [FileProcessingFailed]
         \<and> \<not> processing (processFile b s)"
proof -
  from generate_loop_fails [of j "sections text" b 0 "page_settings s" "[]"] assms(2,3)
  have "isl (try_body b (page_settings s) (Readable text))"
    by (simp add: try_body_def)
  then obtain e where "try_body b (page_settings s) (Readable text) = Inl e"
    by (cases "try_body b (page_settings s) (Readable text)") auto
  with assms(1) show ?thesis by (simp add: processFile_def)
qed


theorem render_section_count_witness:
  "page_file (example_page example_text) = Some (Readable example_text)
   \<and> well_delimited [0x41] [(20, [0x20]), (21, [0x42])]
   \<and> join_segments [0x41] [(20, [0x20]), (21, [0x42])] = example_text
   \<and> sections example_text = [[0x41], [0x42]]
   \<and> images (processFile example_browser (example_page example_text)) = [[0x41], [0x42]]
   \<and> length (images (processFile example_browser (example_page example_text))) = 2
   \<and> alerts (processFile example_browser (example_page example_text)) = []
   \<and> js_trim [0x20, 0x0A] = []
   \<and> images (processFile failing_browser (example_page [0x20, 0x0A])) = []
   \<and> alerts (processFile failing_browser (example_page [0x20, 0x0A])) = []"
proof -
  have f: "page_file (example_page t) = Some (Readable t)" for t
    by (simp add: example_page_def)
  have st: "page_settings (example_page t) = initial_settings"
    and al: "alerts (example_page t) = []" for t
    by (simp_all add: example_page_def)
  have ok: "\<forall>j < length (sections example_text).
      \<not> isl (generateImage example_browser (sections example_text ! j) (j + 1)
                (page_settings (example_page example_text)))"
    by (simp add: generateImage_def example_browser_def)
  have wd: "well_delimited [0x41] [(20, [0x20]), (21, [0x42])]"
    by code_simp
  have js: "join_segments [0x41] [(20, [0x20]), (21, [0x42])] = example_text"
    by (simp add: example_text_def)
  have secs: "sections example_text = [[0x41], [0x42]]"
    by code_simp
  have urls: "map (\<lambda>sec. projr (toDataURL example_browser (paint initial_settings sec)))
                  [[0x41], [0x42]] = [[0x41], [0x42]]"
    by code_simp
  have blank: "js_trim [0x20, 0x0A] = []"
    by (simp add: js_trim_def is_ws_def)
  note r1 = render_section_count [OF f, of example_text example_browser
      "[0x41]" "[(20, [0x20]), (21, [0x42])]"]
  note r2 = render_section_count [OF f, of "[0x20, 0x0A]" failing_browser "[]" "[]"]
  from r1 ok have
    "images (processFile example_browser (example_page example_text)) =
       map (\<lambda>sec. projr (toDataURL example_browser (paint initial_settings sec)))
           (sections example_text)"
    "alerts (processFile example_browser (example_page example_text)) = []"
    by (simp_all only: st al simp_thms)
  with secs urls have
    i1: "images (processFile example_browser (example_page example_text)) = [[0x41], [0x42]]"
    and a1: "alerts (processFile example_browser (example_page example_text)) = []"
    by simp_all
  from r2 blank have
    i2: "images (processFile failing_browser (example_page [0x20, 0x0A])) = []"
    and a2: "alerts (processFile failing_browser (example_page [0x20, 0x0A])) = []"
    by (simp_all only: al simp_thms)
  from f wd js secs i1 a1 blank i2 a2 show ?thesis by simp
qed

theorem batch_aborts_on_failure_witness:
  "page_file (example_page example_text) = Some (Readable example_text)
   \<and> (1::nat) < length (sections example_text)
   \<and> generateImage failing_browser (sections example_text ! 0) 1 initial_settings = Inr [0x41]
   \<and> isl (generateImage failing_browser (sections example_text ! 1) (1 + 1) initial_settings)
   \<and> images (example_page example_text) = [[0x58]]
   \<and> images (processFile failing_browser (example_page example_text)) = []
   \<and> alerts (processFile failing_browser (example_page example_text)) = [FileProcessingFailed]
   \<and> \<not> processing (processFile failing_browser (example_page example_text))"
proof -
  have f: "page_file (example_page example_text) = Some (Readable example_text)"
    and st: "page_settings (example_page example_text) = initial_settings"
    and al: "alerts (example_page example_text) = []"
    and im: "images (example_page example_text) = [[0x58]]"
    by (simp_all add: example_page_def)
  have secs: "sections example_text = [[0x41], [0x42]]"
    by code_simp
  have len: "(1::nat) < length (sections example_text)"
    by (simp add: secs)
  have first: "generateImage failing_browser (sections example_text ! 0) 1 initial_settings
               = Inr [0x41]"
    unfolding secs by code_simp
  have second: "isl (generateImage failing_browser (sections example_text ! 1) (1 + 1)
                      (page_settings (example_page example_text)))"
    by (simp add: generateImage_def failing_browser_def)
  from batch_aborts_on_failure [OF f len second] al
  have "images (processFile failing_browser (example_page example_text)) = []
        \<and> alerts (processFile failing_browser (example_page example_text)) = [FileProcessingFailed]
        \<and> \<not> processing (processFile failing_browser (example_page example_text))"
    by simp
  with f len first second im st show ?thesis by simp
qed

section \<open>Properties of the settings handlers\<close>

lemma decimal_digit_iff:
  "is_radix_digit 10 c \<longleftrightarrow> 0x30 \<le> c \<and> c \<le> 0x39"
proof -
  have "unat c - 87 \<ge> 10" if "0x61 \<le> c" 
    using that by (simp add: word_le_nat_alt)
  moreover have "unat c - 55 \<ge> 10" if "0x41 \<le> c" "\<not> (0x30 \<le> c \<and> c \<le> 0x39)"
    using that by (simp add: word_le_nat_alt)
  moreover have "unat c - 48 < 10" if "c \<le> 0x39"
    using that by (simp add: word_le_nat_alt)
  ultimately show ?thesis
    by (auto simp: is_radix_digit_def digit_value_def)
qed

lemma parseInt_non_numeric: "non_numeric v \<Longrightarrow> parseInt v = None"
proof -
  assume nn: "non_numeric v"
  let ?S1 = "strip_sign (js_trimStart v)"
  have S1: "(if js_trimStart v \<noteq> [] \<and> (hd (js_trimStart v) = PLUS \<or> hd (js_trimStart v) = HYPHEN)
             then tl (js_trimStart v) else js_trimStart v) = ?S1"
    by (simp add: strip_sign_def)
  show ?thesis
  proof (cases ?S1)
    case Nil
    then show ?thesis
      unfolding parseInt_def Let_def S1 by simp
  next
    case (Cons c cs)
    with nn have nd: "\<not> (0x30 \<le> c \<and> c \<le> 0x39)"
      by (simp add: non_numeric_def)
    then have "c \<noteq> 0x30" by auto
    then have nohex: "(2 \<le> length ?S1 \<and> (take 2 ?S1 = [0x30, 0x78] \<or> take 2 ?S1 = [0x30, 0x58]))
                      = False"
      using Cons by (cases cs) auto
    from nd have "takeWhile (is_radix_digit 10) ?S1 = []"
      using Cons by (simp add: decimal_digit_iff)
    then show ?thesis
      unfolding parseInt_def Let_def S1 nohex by simp
  qed
qed

text \<open>
  Claim C8. For each of the four settings fields, an input value with no number in it (the
  empty value among them) sets the field to its documented default, 62, 41, 55 and 70, and
  leaves the other fields as they are; the handlers have no error result.
\<close>

theorem settings_fall_back_to_defaults:
  "non_numeric v \<Longrightarrow>
     onChange_contentFontSize s v = s\<lparr>contentFontSize := 62\<rparr>
   \<and> onChange_numberFontSize s v = s\<lparr>numberFontSize := 41\<rparr>
   \<and> onChange_numberContentSpacing s v = s\<lparr>numberContentSpacing := 55\<rparr>
   \<and> onChange_lineSpacing s v = s\<lparr>lineSpacing := 70\<rparr>"
  by (simp add: parseInt_non_numeric js_or_def onChange_contentFontSize_def
      onChange_numberFontSize_def onChange_numberContentSpacing_def onChange_lineSpacing_def)

theorem settings_fall_back_to_defaults_witness:
  "non_numeric [] \<and> non_numeric [0x61, 0x62, 0x63]
   \<and> contentFontSize (onChange_contentFontSize (initial_settings\<lparr>contentFontSize := 80\<rparr>) []) = 62
   \<and> contentFontSize
        (onChange_contentFontSize (initial_settings\<lparr>contentFontSize := 80\<rparr>) [0x61, 0x62, 0x63]) = 62"
proof -
  have e: "non_numeric []" and a: "non_numeric [0x61, 0x62, 0x63]"
    by (simp_all add: non_numeric_def strip_sign_def js_trimStart_def is_ws_def PLUS_def HYPHEN_def)
  from settings_fall_back_to_defaults [OF e, of "initial_settings\<lparr>contentFontSize := 80\<rparr>"]
       settings_fall_back_to_defaults [OF a, of "initial_settings\<lparr>contentFontSize := 80\<rparr>"]
       e a
  show ?thesis by simp
qed

lemma onChange_field:
  "field_value f (onChange s (f, v)) = js_or (parseInt v) (default_of f)"
  by (cases f) (simp_all add: onChange_contentFontSize_def
      onChange_numberFontSize_def onChange_numberContentSpacing_def onChange_lineSpacing_def)

lemma onChange_other:
  "g \<noteq> f \<Longrightarrow> field_value g (onChange s (f, v)) = field_value g s"
  by (cases f; cases g) (simp_all add: onChange_contentFontSize_def
      onChange_numberFontSize_def onChange_numberContentSpacing_def onChange_lineSpacing_def)

lemma js_or_nonzero: "d \<noteq> 0 \<Longrightarrow> js_or n d \<noteq> 0"
  by (simp add: js_or_def split: option.splits)

lemma default_of_nonzero: "default_of f \<noteq> 0"
  by (cases f) simp_all

lemma onChange_nonzero:
  assumes "\<And>g. field_value g s \<noteq> 0"
  shows "field_value g (onChange s ev) \<noteq> 0"
proof -
  obtain f v where ev: "ev = (f, v)" by (cases ev)
  show ?thesis
  proof (cases "g = f")
    case True
    then show ?thesis
      by (simp add: ev onChange_field js_or_nonzero default_of_nonzero)
  next
    case False
    then show ?thesis using assms by (simp add: ev onChange_other)
  qed
qed

lemma foldl_onChange_nonzero:
  "(\<And>g. field_value g s \<noteq> 0) \<Longrightarrow> field_value g (foldl onChange s events) \<noteq> 0"
proof (induction events arbitrary: s g)
  case Nil
  then show ?case by simp
next
  case (Cons ev events)
  have "\<And>h. field_value h (onChange s ev) \<noteq> 0"
    by (rule onChange_nonzero) (rule Cons.prems)
  from Cons.IH [OF this] show ?case by simp
qed

lemma initial_settings_nonzero: "field_value g initial_settings \<noteq> 0"
  by (cases g) (simp_all add: initial_settings_def)

text \<open>
  Claim C10. Each field is set to \<open>parseInt(value) || default\<close>: an input whose parsed
  value is NaN or 0 (the string "0", the empty string) gives the default, so a changed field
  is never 0 and no field is 0 after any sequence of changes; a parsed integer other than 0
  is stored as it is, a negative one included ("-5" gives -5).
\<close>

theorem settings_zero_never_negative_accepted:
  "(parseInt v = None \<or> parseInt v = Some 0 \<longrightarrow>
      field_value f (onChange s (f, v)) = default_of f)
   \<and> (parseInt v = Some n \<and> n \<noteq> 0 \<longrightarrow> field_value f (onChange s (f, v)) = n)
   \<and> field_value f (onChange s (f, v)) \<noteq> 0
   \<and> field_value g (after_changes events) \<noteq> 0
   \<and> parseInt [0x30] = Some 0 \<and> parseInt [] = None
   \<and> parseInt [0x2D, 0x35] = Some (- 5)
   \<and> field_value f (onChange s (f, [0x2D, 0x35])) = - 5"
proof (intro conjI impI)
  assume "parseInt v = None \<or> parseInt v = Some 0"
  then show "field_value f (onChange s (f, v)) = default_of f"
    by (auto simp: onChange_field js_or_def)
next
  assume "parseInt v = Some n \<and> n \<noteq> 0"
  then show "field_value f (onChange s (f, v)) = n"
    by (simp add: onChange_field js_or_def)
next
  show "field_value f (onChange s (f, v)) \<noteq> 0"
    by (simp add: onChange_field js_or_nonzero default_of_nonzero)
next
  show "field_value g (after_changes events) \<noteq> 0"
    unfolding after_changes_def by (rule foldl_onChange_nonzero) (rule initial_settings_nonzero)
next
  show "parseInt [0x30] = Some 0" by code_simp
  show "parseInt [] = None" by code_simp
  show m5: "parseInt [0x2D, 0x35] = Some (- 5)" by code_simp
  then show "field_value f (onChange s (f, [0x2D, 0x35])) = - 5"
    by (simp add: onChange_field js_or_def)
qed

theorem settings_zero_never_negative_accepted_witness:
  "parseInt [0x30] = Some 0
   \<and> field_value LineSpacing (onChange (initial_settings\<lparr>lineSpacing := 90\<rparr>) (LineSpacing, [0x30])) = 70
   \<and> parseInt [0x2D, 0x35] = Some (- 5) \<and> (- 5 :: int) \<noteq> 0
   \<and> field_value LineSpacing (onChange initial_settings (LineSpacing, [0x2D, 0x35])) = - 5
   \<and> lineSpacing (after_changes [(LineSpacing, [0x2D, 0x35]), (LineSpacing, [0x30])]) = 70"
proof -
  note z = settings_zero_never_negative_accepted
    [of "[0x30]" LineSpacing "initial_settings\<lparr>lineSpacing := 90\<rparr>" 0 LineSpacing "[]"]
  note m = settings_zero_never_negative_accepted
    [of "[0x2D, 0x35]" LineSpacing initial_settings "- 5" LineSpacing "[]"]
  from z have p0: "parseInt [0x30] = Some 0" by blast
  with z have d: "field_value LineSpacing
      (onChange (initial_settings\<lparr>lineSpacing := 90\<rparr>) (LineSpacing, [0x30])) = 70"
    by simp
  from m have p5: "parseInt [0x2D, 0x35] = Some (- 5)" by blast
  with m have a: "field_value LineSpacing (onChange initial_settings (LineSpacing, [0x2D, 0x35])) = - 5"
    by blast
  have r: "lineSpacing (after_changes [(LineSpacing, [0x2D, 0x35]), (LineSpacing, [0x30])]) = 70"
    by (simp add: after_changes_def onChange_lineSpacing_def p0 p5 js_or_def)
  from p0 d p5 a r show ?thesis by simp
qed

section \<open>Properties of the classifier\<close>

lemma foldl_classify_step:
  "foldl classify_step (t, cl) ls =
   (if filter title_line ls = [] then t else strip_title (last (filter title_line ls)),
    cl @ map js_trim (filter (\<lambda>l. \<not> title_line l \<and> js_trim l \<noteq> []) ls))"
proof (induction ls arbitrary: t cl)
  case Nil
  show ?case by simp
next
  case (Cons l ls)
  show ?case
  proof (cases "title_line l")
    case True
    then have "classify_step (t, cl) l = (strip_title l, cl)"
      by (simp add: classify_step_def title_line_def strip_title_def)
    with True Cons.IH [of "strip_title l" cl] show ?thesis by simp
  next
    case False
    then have "classify_step (t, cl) l =
               (t, if js_trim l \<noteq> [] then cl @ [js_trim l] else cl)"
      by (auto simp: classify_step_def title_line_def truthy_def)
    with False Cons.IH [of t "if js_trim l \<noteq> [] then cl @ [js_trim l] else cl"]
    show ?thesis by simp
  qed
qed

lemma classify_content_lines:
  "snd (classify ls) = map js_trim (filter (\<lambda>l. \<not> title_line l \<and> js_trim l \<noteq> []) ls)"
  by (simp add: classify_def foldl_classify_step)

lemma classify_title:
  "fst (classify ls) =
   (if filter title_line ls = [] then [] else strip_title (last (filter title_line ls)))"
  by (simp add: classify_def foldl_classify_step)

lemma js_includes_sublist: "js_includes s sub = sublist sub s"
  by (induction s) (simp_all add: sublist_Cons_right)

lemma strip_title_canonical:
  assumes "hd SUFFIX \<notin> set label"
  shows "strip_title (HEADER_SP @ label @ SUFFIX) = js_trim label"
proof -
  have "replace_first (HEADER_SP @ label @ SUFFIX) HEADER_SP [] = label @ SUFFIX"
    by (simp add: HEADER_SP_def)
  moreover have "replace_first (label @ SUFFIX) SUFFIX [] = label"
    using assms by (induction label) (auto simp: SUFFIX_def)
  ultimately show ?thesis by (simp add: strip_title_def)
qed

lemma title_line_canonical: "title_line (HEADER_SP @ label @ SUFFIX)"
proof -
  have "sublist HEADER (HEADER @ ([0x20] @ label @ SUFFIX))"
    by (rule sublist_append_rightI)
  moreover have "sublist SUFFIX ((HEADER_SP @ label) @ SUFFIX)"
    by (rule sublist_append_leftI)
  ultimately show ?thesis
    by (simp add: title_line_def js_includes_sublist HEADER_SP_def HEADER_def)
qed

lemma classify_scenario:
  "classify (wrap_section scenario_text) = ([0x33], [[0xC548, 0xB155, 0xD558, 0xC138, 0xC694]])"
  by code_simp

text \<open>
  Claim C5, at a title line with no space after the header (header, the digit 3, suffix). The
  line holds both the header and the suffix, so it is taken as the title; the claim gives
  the title "3". \<open>replace\<close> looks for the header followed by a space, finds none, and the
  title keeps the header in front of the digit.
\<close>

theorem title_keeps_header_without_space:
  "js_includes (HEADER @ [0x33] @ SUFFIX) HEADER
   \<and> js_includes (HEADER @ [0x33] @ SUFFIX) SUFFIX
   \<and> wrap_section (HEADER @ [0x33] @ SUFFIX) = [HEADER @ [0x33] @ SUFFIX]
   \<and> classify (wrap_section (HEADER @ [0x33] @ SUFFIX)) = (HEADER @ [0x33], [])"
  by code_simp

end
